theory Spec2Isabelle
  imports Complex_Main
begin

section \<open>Shared Python primitives\<close>

text \<open>
  The three source files are Python. Exceptions of the interpreter and of the standard
  library are values of \<open>py_error\<close>; a computation that may raise returns
  \<open>py_error + 'a\<close> with \<open>Inl\<close> carrying the exception.
\<close>

datatype py_error =
  IndexError | ZeroDivisionError | ValueError | StatisticsError | UnicodeEncodeError

text \<open>
  Python list indexing: an index below zero counts from the end of the list, and an index
  outside the list raises \<open>IndexError\<close>, for reads and for item assignment alike.
\<close>

definition norm_index :: "nat \<Rightarrow> int \<Rightarrow> int" where
  "norm_index len i = (if i < 0 then i + int len else i)"

definition list_getitem :: "'a list \<Rightarrow> int \<Rightarrow> py_error + 'a" where
  "list_getitem xs i =
     (if 0 \<le> norm_index (length xs) i \<and> norm_index (length xs) i < int (length xs)
      then Inr (xs ! nat (norm_index (length xs) i))
      else Inl IndexError)"

definition list_setitem :: "'a list \<Rightarrow> int \<Rightarrow> 'a \<Rightarrow> py_error + 'a list" where
  "list_setitem xs i v =
     (if 0 \<le> norm_index (length xs) i \<and> norm_index (length xs) i < int (length xs)
      then Inr (xs[nat (norm_index (length xs) i) := v])
      else Inl IndexError)"

text \<open>
  The operator \<open>%\<close> on integers: the result takes the sign of the divisor, which is what
  \<open>mod\<close> on \<open>int\<close> computes, and a zero divisor raises \<open>ZeroDivisionError\<close>.
\<close>

definition py_mod :: "int \<Rightarrow> int \<Rightarrow> py_error + int" where
  "py_mod a b = (if b = 0 then Inl ZeroDivisionError else Inr (a mod b))"

text \<open>\<open>str\<close> of a non-negative integer, as an f-string field prints it: its decimal digits.\<close>

definition digit_char :: "nat \<Rightarrow> char" where
  "digit_char d = char_of (48 + d)"

fun str_nat :: "nat \<Rightarrow> string" where
  "str_nat n = (if n < 10 then [digit_char n] else str_nat (n div 10) @ [digit_char (n mod 10)])"

declare str_nat.simps [simp del]

text \<open>
  A Python \<open>str\<close> is a sequence of code points, here natural numbers (at most
  \<open>0x10FFFF\<close> in Python); \<open>py_str\<close> is the \<open>str\<close> whose code points are the given
  characters, which is how the literals and the digits of the f-strings enter. The type
  \<open>string\<close> of HOL is a list of bytes.

  \<open>s.encode()\<close> is the UTF-8 encoding: one to four bytes per code point, and
  \<open>UnicodeEncodeError\<close> when the \<open>str\<close> holds a surrogate code point
  (\<open>0xD800\<close> to \<open>0xDFFF\<close>).
\<close>

type_synonym pystr = "nat list"

definition py_str :: "string \<Rightarrow> pystr" where
  "py_str s = map of_char s"

definition surrogate :: "nat \<Rightarrow> bool" where
  "surrogate c = (55296 \<le> c \<and> c \<le> 57343)"

definition utf8_bytes :: "nat \<Rightarrow> string" where
  "utf8_bytes c =
     (if c < 128 then [char_of c]
      else if c < 2048 then [char_of (192 + c div 64), char_of (128 + c mod 64)]
      else if c < 65536 then
        [char_of (224 + c div 4096), char_of (128 + c div 64 mod 64), char_of (128 + c mod 64)]
      else
        [char_of (240 + c div 262144), char_of (128 + c div 4096 mod 64),
         char_of (128 + c div 64 mod 64), char_of (128 + c mod 64)])"

fun encode :: "pystr \<Rightarrow> py_error + string" where
  "encode [] = Inr []"
| "encode (c # cs) =
     (if surrogate c then Inl UnicodeEncodeError
      else (case encode cs of Inl e \<Rightarrow> Inl e | Inr bytes \<Rightarrow> Inr (utf8_bytes c @ bytes)))"

text \<open>
  SHA-256 comes from \<open>hashlib\<close>, not from this repository. Every definition below that
  hashes takes it as the parameter \<open>sha\<close>: the map from a byte string to
  \<open>int(sha256(bytes).hexdigest(), 16)\<close>, a natural number.
\<close>

type_synonym sha256_int = "string \<Rightarrow> nat"


section \<open>Bloom filter (task2)\<close>

type_synonym hash_fn = "pystr \<Rightarrow> py_error + int"

text \<open>
  \<open>create_hash_functions\<close>: the loop over \<open>range(num_hash_functions)\<close> appends one
  closure per index; the index is bound through the default argument of the outer lambda,
  so the closure number \<open>i\<close> hashes with index \<open>i\<close>. A non-positive count makes the range
  empty. Nothing is computed until a closure is called: the call builds the f-string
  from the index and the key (a \<open>str\<close>), encodes it, which may raise, hashes the bytes
  and then takes the result modulo the size, which raises for size 0.
\<close>

definition hash_input :: "nat \<Rightarrow> pystr \<Rightarrow> pystr" where
  "hash_input index x =
     py_str ''hash_function_index_'' @ py_str (str_nat index) @ py_str ''_bank_account_'' @ x"

definition hash_closure :: "sha256_int \<Rightarrow> int \<Rightarrow> nat \<Rightarrow> hash_fn" where
  "hash_closure sha size_bit_array index x =
     (case encode (hash_input index x) of
        Inl e \<Rightarrow> Inl e
      | Inr bytes \<Rightarrow> py_mod (int (sha bytes)) size_bit_array)"

definition create_hash_functions :: "sha256_int \<Rightarrow> int \<Rightarrow> int \<Rightarrow> hash_fn list" where
  "create_hash_functions sha num_hash_functions size_bit_array =
     map (hash_closure sha size_bit_array) [0..<nat num_hash_functions]"

text \<open>
  \<open>add_to_bloom_filter\<close>: for each hash function in order, call it and assign 1 at the
  index it returns. An exception of the call or of the assignment leaves the loop.
\<close>

fun add_to_bloom_filter :: "int list \<Rightarrow> hash_fn list \<Rightarrow> pystr \<Rightarrow> py_error + int list" where
  "add_to_bloom_filter bloom_filter [] bank_account = Inr bloom_filter"
| "add_to_bloom_filter bloom_filter (custom_hash # rest) bank_account =
     (case custom_hash bank_account of
        Inl e \<Rightarrow> Inl e
      | Inr i \<Rightarrow>
          (case list_setitem bloom_filter i 1 of
             Inl e \<Rightarrow> Inl e
           | Inr bloom_filter' \<Rightarrow> add_to_bloom_filter bloom_filter' rest bank_account))"

text \<open>
  \<open>check_bloom_filter\<close>: the first hash function whose bit is not 1 returns False; when
  the loop ends, True.
\<close>

fun check_bloom_filter :: "int list \<Rightarrow> hash_fn list \<Rightarrow> pystr \<Rightarrow> py_error + bool" where
  "check_bloom_filter bloom_filter [] bank_account = Inr True"
| "check_bloom_filter bloom_filter (custom_hash # rest) bank_account =
     (case custom_hash bank_account of
        Inl e \<Rightarrow> Inl e
      | Inr i \<Rightarrow>
          (case list_getitem bloom_filter i of
             Inl e \<Rightarrow> Inl e
           | Inr b \<Rightarrow> if b \<noteq> 1 then Inr False else check_bloom_filter bloom_filter rest bank_account))"

text \<open>
  The driver's loop \<open>for account in accounts: add_to_bloom_filter(bloom, hashes, account)\<close>:
  the keys are added one after the other to the same bit array.
\<close>

fun add_all :: "int list \<Rightarrow> hash_fn list \<Rightarrow> pystr list \<Rightarrow> py_error + int list" where
  "add_all bloom_filter hash_functions [] = Inr bloom_filter"
| "add_all bloom_filter hash_functions (account # accounts) =
     (case add_to_bloom_filter bloom_filter hash_functions account of
        Inl e \<Rightarrow> Inl e
      | Inr bloom_filter' \<Rightarrow> add_all bloom_filter' hash_functions accounts)"


section \<open>Reservoir sampling (task1)\<close>

text \<open>
  The only randomness of \<open>reservoir_sampling\<close> is the call \<open>random.randint(0, index)\<close>,
  made at most once per loop index. It is the parameter \<open>randint\<close>: \<open>randint index\<close> is
  the integer that call returns at loop index \<open>index\<close>; being drawn from \<open>[0, index]\<close> it
  is never negative, so it is a \<open>nat\<close>. The data stream is the finite list of the
  transactions the generator yields.

  The loop: while \<open>index < k\<close> the transaction is appended; afterwards a draw below \<open>k\<close>
  overwrites that slot of the sample (an item assignment, which raises \<open>IndexError\<close>
  outside the list) and any other draw drops the transaction.
\<close>

fun sampling_loop :: "int \<Rightarrow> (nat \<Rightarrow> nat) \<Rightarrow> nat \<Rightarrow> 'a list \<Rightarrow> 'a list \<Rightarrow> py_error + 'a list" where
  "sampling_loop k randint index sample [] = Inr sample"
| "sampling_loop k randint index sample (transaction # rest) =
     (if int index < k then sampling_loop k randint (Suc index) (sample @ [transaction]) rest
      else if int (randint index) < k then
        (case list_setitem sample (int (randint index)) transaction of
           Inl e \<Rightarrow> Inl e
         | Inr sample' \<Rightarrow> sampling_loop k randint (Suc index) sample' rest)
      else sampling_loop k randint (Suc index) sample rest)"

definition reservoir_sampling :: "int \<Rightarrow> (nat \<Rightarrow> nat) \<Rightarrow> 'a list \<Rightarrow> py_error + 'a list" where
  "reservoir_sampling k randint datastream = sampling_loop k randint 0 [] datastream"

text \<open>
  The probability space of a run with sample size \<open>k\<close> over a stream of \<open>k + m\<close>
  elements: the \<open>m\<close> draws made at the indices \<open>k, ..., k + m - 1\<close>, the draw at index
  \<open>i\<close> ranging over \<open>0, ..., i\<close>. \<open>draw_sequences k m\<close> lists every such sequence once,
  and \<open>draws_oracle\<close> turns a sequence into the \<open>randint\<close> of a run.
\<close>

fun draw_sequences :: "nat \<Rightarrow> nat \<Rightarrow> nat list list" where
  "draw_sequences k 0 = [[]]"
| "draw_sequences k (Suc m) =
     concat (map (\<lambda>ds. map (\<lambda>r. ds @ [r]) [0..<Suc (k + m)]) (draw_sequences k m))"

definition draws_oracle :: "nat \<Rightarrow> nat list \<Rightarrow> nat \<Rightarrow> nat" where
  "draws_oracle k ds index =
     (if k \<le> index \<and> index - k < length ds then ds ! (index - k) else 0)"

definition present :: "'a \<Rightarrow> py_error + 'a list \<Rightarrow> bool" where
  "present x result = (case result of Inl e \<Rightarrow> False | Inr sample \<Rightarrow> x \<in> set sample)"


section \<open>Flajolet-Martin cardinality estimator (task3)\<close>

record FlajoletMartin =
  max_trailing_zeros :: "nat list"

text \<open>\<open>__init__\<close>: \<open>[0] * num_hashes\<close>, the empty list when \<open>num_hashes\<close> is not positive.\<close>

definition FlajoletMartin_init :: "int \<Rightarrow> FlajoletMartin" where
  "FlajoletMartin_init num_hashes = \<lparr>max_trailing_zeros = replicate (nat num_hashes) 0\<rparr>"

text \<open>
  \<open>hash_function\<close>: SHA-256 of \<open>f"{seed}-{item}"\<close> as an integer. An item is given by
  the UTF-8 bytes of its \<open>str\<close>; the seed and the dash are ASCII, so the bytes hashed are
  those of the seed, the dash and the item in this order. (An item whose \<open>str\<close> has no
  encoding makes \<open>add\<close> raise in its first hash call, before any counter changes.)
\<close>

definition hash_function :: "sha256_int \<Rightarrow> string \<Rightarrow> nat \<Rightarrow> nat" where
  "hash_function sha item seed = sha (str_nat seed @ ''-'' @ item)"

text \<open>
  \<open>bin(x)\<close>: the prefix \<open>0b\<close>, after a minus sign for a negative number, and the binary
  digits of the absolute value without leading zeros (\<open>0b0\<close> for zero).
\<close>

fun bin_digits :: "nat \<Rightarrow> string" where
  "bin_digits n = (if n < 2 then [digit_char n] else bin_digits (n div 2) @ [digit_char (n mod 2)])"

declare bin_digits.simps [simp del]

definition bin :: "int \<Rightarrow> string" where
  "bin x = (if x < 0 then ''-0b'' @ bin_digits (nat (- x)) else ''0b'' @ bin_digits (nat x))"

text \<open>\<open>s.index(c)\<close>: the position of the first occurrence, \<open>ValueError\<close> when there is none.\<close>

fun str_index :: "string \<Rightarrow> char \<Rightarrow> py_error + nat" where
  "str_index [] c = Inl ValueError"
| "str_index (d # s) c =
     (if d = c then Inr 0
      else (case str_index s c of Inl e \<Rightarrow> Inl e | Inr n \<Rightarrow> Inr (Suc n)))"

text \<open>
  \<open>count_trailing_zeros\<close>: \<open>bin(x)[2:]\<close>, reversed, searched for the first \<open>1\<close>; the
  handler of \<open>ValueError\<close>, the only exception \<open>index\<close> raises, makes the count 0.
\<close>

definition count_trailing_zeros :: "int \<Rightarrow> nat" where
  "count_trailing_zeros x =
     (let binary_representation = drop 2 (bin x)
      in case str_index (rev binary_representation) (CHR ''1'') of
           Inr trailing_zeros_count \<Rightarrow> trailing_zeros_count
         | Inl e \<Rightarrow> 0)"

text \<open>
  \<open>add\<close>: the loop over \<open>range(len(self.max_trailing_zeros))\<close>. The list keeps its length
  through the loop, so every index the loop reads and writes is inside the list.
\<close>

fun add_loop :: "sha256_int \<Rightarrow> string \<Rightarrow> nat list \<Rightarrow> nat list \<Rightarrow> nat list" where
  "add_loop sha item [] counters = counters"
| "add_loop sha item (i # rest) counters =
     (let hash_value = hash_function sha item i;
          trailing_zeros_count = count_trailing_zeros (int hash_value)
      in add_loop sha item rest
           (if trailing_zeros_count > counters ! i
            then counters[i := trailing_zeros_count] else counters))"

definition fm_add :: "sha256_int \<Rightarrow> FlajoletMartin \<Rightarrow> string \<Rightarrow> FlajoletMartin" where
  "fm_add sha self item =
     self\<lparr>max_trailing_zeros :=
       add_loop sha item [0..<length (max_trailing_zeros self)] (max_trailing_zeros self)\<rparr>"

text \<open>The driver's loop \<open>for element in elements: fm.add(element)\<close>.\<close>

fun fm_add_all :: "sha256_int \<Rightarrow> FlajoletMartin \<Rightarrow> string list \<Rightarrow> FlajoletMartin" where
  "fm_add_all sha self [] = self"
| "fm_add_all sha self (item # items) = fm_add_all sha (fm_add sha self item) items"

text \<open>
  Python numbers carry their type: \<open>PyInt\<close> an \<open>int\<close>, \<open>PyFloat\<close> a \<open>float\<close>. Floats are
  idealised as real numbers: the rounding of IEEE-754 doubles is not modelled, nor is
  their range (a SHA-256 value is below \<open>2 ** 256\<close>, so a counter is at most 255 and
  \<open>2 ** median\<close> stays far inside it).

  \<open>statistics.median\<close>: sorts the data, raises \<open>StatisticsError\<close> when it is empty,
  returns the middle element when the length is odd and otherwise the true division
  by 2 of the sum of the two middle elements, which is a float.
\<close>

datatype pynum = PyInt int | PyFloat real

definition median :: "nat list \<Rightarrow> py_error + pynum" where
  "median data =
     (let sorted_data = sort data; n = length sorted_data
      in if n = 0 then Inl StatisticsError
         else if n mod 2 = 1 then Inr (PyInt (int (sorted_data ! (n div 2))))
         else Inr (PyFloat ((real (sorted_data ! (n div 2 - 1)) + real (sorted_data ! (n div 2))) / 2)))"

text \<open>
  \<open>2 ** m\<close>: an int for a non-negative int exponent, a float otherwise. \<open>x / d\<close> with a
  float divisor is a float.
\<close>

definition num_value :: "pynum \<Rightarrow> real" where
  "num_value x = (case x of PyInt n \<Rightarrow> real_of_int n | PyFloat r \<Rightarrow> r)"

definition pow2 :: "pynum \<Rightarrow> pynum" where
  "pow2 m =
     (case m of
        PyInt n \<Rightarrow> if 0 \<le> n then PyInt (2 ^ nat n) else PyFloat (2 powr real_of_int n)
      | PyFloat r \<Rightarrow> PyFloat (2 powr r))"

definition truediv :: "pynum \<Rightarrow> real \<Rightarrow> pynum" where
  "truediv x d = PyFloat (num_value x / d)"

text \<open>\<open>estimate_number\<close>: the median of the counters, and 2 to its power over 0.75351.\<close>

definition estimate_number :: "FlajoletMartin \<Rightarrow> py_error + (pynum \<times> pynum)" where
  "estimate_number self =
     (case median (max_trailing_zeros self) of
        Inl e \<Rightarrow> Inl e
      | Inr median_trailing_zeros \<Rightarrow>
          Inr (truediv (pow2 median_trailing_zeros) 0.75351, median_trailing_zeros))"


section \<open>Auxiliary definitions of the proofs\<close>

text \<open>
  The theorems below hold for every digest function. Where one of them is instantiated
  at a concrete input, \<open>byte_sum_digest\<close> (the sum of the bytes) stands for the digest.
\<close>

definition byte_sum_digest :: sha256_int where
  "byte_sum_digest s = sum_list (map of_char s)"

text \<open>
  A \<open>str\<close> is encodable when it holds no surrogate code point. A hash family is in range
  on a key, for a bit array of length \<open>len\<close>, when every function returns an index in
  \<open>[0, len)\<close> on that key. \<open>bits_kept\<close> relates a bit array to a later one of the same
  length in which every bit that was 1 still is. \<open>key_bits_set\<close> says that every function
  of the family sends the key to a position holding 1.
\<close>

definition encodable :: "pystr \<Rightarrow> bool" where
  "encodable x = list_all (\<lambda>c. \<not> surrogate c) x"

definition family_in_range :: "hash_fn list \<Rightarrow> nat \<Rightarrow> pystr \<Rightarrow> bool" where
  "family_in_range hfs len key = (\<forall>f \<in> set hfs. \<exists>i. f key = Inr i \<and> 0 \<le> i \<and> i < int len)"

definition bits_kept :: "int list \<Rightarrow> int list \<Rightarrow> bool" where
  "bits_kept bf bf' = (length bf' = length bf \<and> (\<forall>j < length bf. bf ! j = 1 \<longrightarrow> bf' ! j = 1))"

definition key_bits_set :: "int list \<Rightarrow> hash_fn list \<Rightarrow> pystr \<Rightarrow> bool" where
  "key_bits_set bf hfs key =
     (\<forall>f \<in> set hfs. \<exists>i. f key = Inr i \<and> 0 \<le> i \<and> i < int (length bf) \<and> bf ! nat i = 1)"

text \<open>The trailing-zero count of the hash number \<open>i\<close> of an item, and the counters after a run.\<close>

definition item_zeros :: "sha256_int \<Rightarrow> nat \<Rightarrow> string \<Rightarrow> nat" where
  "item_zeros sha i item = count_trailing_zeros (int (hash_function sha item i))"

definition counters_after :: "sha256_int \<Rightarrow> int \<Rightarrow> string list \<Rightarrow> nat list" where
  "counters_after sha h items = max_trailing_zeros (fm_add_all sha (FlajoletMartin_init h) items)"


section \<open>Python primitives: facts\<close>

lemma list_setitem_in_range:
  "0 \<le> i \<Longrightarrow> i < int (length xs) \<Longrightarrow> list_setitem xs i v = Inr (xs[nat i := v])"
  by (simp add: list_setitem_def norm_index_def)

lemma list_getitem_in_range:
  "0 \<le> i \<Longrightarrow> i < int (length xs) \<Longrightarrow> list_getitem xs i = Inr (xs ! nat i)"
  by (simp add: list_getitem_def norm_index_def)

lemma list_setitem_empty: "list_setitem [] i v = Inl IndexError"
  by (simp add: list_setitem_def norm_index_def)

lemma list_getitem_empty: "list_getitem [] i = Inl IndexError"
  by (simp add: list_getitem_def norm_index_def)

lemma digit_char_0: "digit_char 0 = CHR ''0''"
  by (simp add: digit_char_def char_of_def bit_iff_odd)

lemma digit_char_1: "digit_char (Suc 0) = CHR ''1''"
  by (simp add: digit_char_def char_of_def bit_iff_odd)


section \<open>Bloom filter: properties\<close>

lemma encode_encodable: "encodable x \<Longrightarrow> \<exists>bytes. encode x = Inr bytes"
  by (induction x) (auto simp: encodable_def)

lemma encode_not_encodable: "\<not> encodable x \<Longrightarrow> encode x = Inl UnicodeEncodeError"
  by (induction x) (auto simp: encodable_def)

lemma encodable_append: "encodable (x @ y) = (encodable x \<and> encodable y)"
  by (simp add: encodable_def)

lemma of_char_below_256: "(of_char c :: nat) < 256"
proof -
  have "(of_char c :: nat) = of_char c mod 256" by simp
  also have "\<dots> < 256" by (rule mod_less_divisor) simp
  finally show ?thesis .
qed

lemma of_char_not_surrogate: "\<not> surrogate (of_char c)"
  unfolding surrogate_def using of_char_below_256 [of c] by linarith

lemma encodable_py_str: "encodable (py_str s)"
  by (simp add: encodable_def py_str_def list_all_iff of_char_not_surrogate)

lemma encodable_hash_input: "encodable (hash_input index x) = encodable x"
  by (simp add: hash_input_def encodable_append encodable_py_str)

lemma create_hash_functions_length:
  "length (create_hash_functions sha h N) = nat h"
  by (simp add: create_hash_functions_def)

lemma hash_closure_in_range:
  assumes "1 \<le> N" and "encodable x"
  shows "\<exists>bytes. encode (hash_input idx x) = Inr bytes
           \<and> hash_closure sha N idx x = Inr (int (sha bytes) mod N)
           \<and> 0 \<le> int (sha bytes) mod N \<and> int (sha bytes) mod N < N"
proof -
  from assms(2) have "encodable (hash_input idx x)" by (simp add: encodable_hash_input)
  then obtain bytes where "encode (hash_input idx x) = Inr bytes"
    using encode_encodable by blast
  with assms(1) show ?thesis by (simp add: hash_closure_def py_mod_def)
qed

lemma hash_closure_not_encodable:
  "\<not> encodable x \<Longrightarrow> hash_closure sha N idx x = Inl UnicodeEncodeError"
  by (simp add: hash_closure_def encode_not_encodable encodable_hash_input)

lemma hash_closure_zero:
  "hash_closure sha 0 i key
     = Inl (if encodable key then ZeroDivisionError else UnicodeEncodeError)"
proof (cases "encodable key")
  case True
  then have "encodable (hash_input i key)" by (simp add: encodable_hash_input)
  then obtain bytes where "encode (hash_input i key) = Inr bytes"
    using encode_encodable by blast
  with True show ?thesis by (simp add: hash_closure_def py_mod_def)
next
  case False
  then show ?thesis by (simp add: hash_closure_not_encodable)
qed

lemma family_in_range_Cons:
  "family_in_range (f # hfs) len key =
     ((\<exists>i. f key = Inr i \<and> 0 \<le> i \<and> i < int len) \<and> family_in_range hfs len key)"
  by (auto simp: family_in_range_def)

lemma created_family_in_range:
  assumes "1 \<le> N" and "encodable key"
  shows "family_in_range (create_hash_functions sha h N) (nat N) key"
  unfolding family_in_range_def create_hash_functions_def
proof
  fix f assume "f \<in> set (map (hash_closure sha N) [0..<nat h])"
  then obtain idx where f: "f = hash_closure sha N idx" by auto
  from hash_closure_in_range [OF assms, of idx sha] assms(1)
  show "\<exists>i. f key = Inr i \<and> 0 \<le> i \<and> i < int (nat N)"
    unfolding f by auto
qed

lemma bits_kept_refl: "bits_kept bf bf"
  by (simp add: bits_kept_def)

lemma bits_kept_trans: "bits_kept a b \<Longrightarrow> bits_kept b c \<Longrightarrow> bits_kept a c"
  by (simp add: bits_kept_def)

lemma bits_kept_update: "bits_kept bf (bf[j := 1])"
  unfolding bits_kept_def
  by (metis length_list_update nth_list_update_eq nth_list_update_neq)

lemma bits_kept_family:
  "bits_kept bf bf' \<Longrightarrow> family_in_range hfs (length bf) key \<Longrightarrow> family_in_range hfs (length bf') key"
  by (simp add: bits_kept_def)

lemma key_bits_set_kept:
  "key_bits_set bf hfs key \<Longrightarrow> bits_kept bf bf' \<Longrightarrow> key_bits_set bf' hfs key"
  unfolding key_bits_set_def bits_kept_def
  by (metis nat_less_iff)

lemma add_to_bloom_filter_sets:
  assumes "family_in_range hfs (length bf) key"
  shows "\<exists>bf'. add_to_bloom_filter bf hfs key = Inr bf' \<and> bits_kept bf bf' \<and> key_bits_set bf' hfs key"
  using assms
proof (induction hfs arbitrary: bf)
  case Nil
  then show ?case by (simp add: bits_kept_refl key_bits_set_def)
next
  case (Cons f hfs)
  from Cons.prems obtain i where i: "f key = Inr i" "0 \<le> i" "i < int (length bf)"
    and rest: "family_in_range hfs (length bf) key"
    unfolding family_in_range_Cons by blast
  let ?bf1 = "bf[nat i := 1]"
  have rest1: "family_in_range hfs (length ?bf1) key" using rest by simp
  from Cons.IH [OF rest1] obtain bf' where
    bf': "add_to_bloom_filter ?bf1 hfs key = Inr bf'" "bits_kept ?bf1 bf'" "key_bits_set bf' hfs key"
    by blast
  have run: "add_to_bloom_filter bf (f # hfs) key = Inr bf'"
    using i bf'(1) by (simp add: list_setitem_in_range)
  have kept: "bits_kept bf bf'"
    using bits_kept_update bf'(2) by (rule bits_kept_trans)
  have "?bf1 ! nat i = 1" using i by simp
  then have "bf' ! nat i = 1" "i < int (length bf')"
    using bf'(2) i by (auto simp: bits_kept_def)
  then have "key_bits_set bf' (f # hfs) key"
    using bf'(3) i by (auto simp: key_bits_set_def)
  with run kept show ?case by blast
qed

lemma check_bloom_filter_True:
  "key_bits_set bf hfs key \<Longrightarrow> check_bloom_filter bf hfs key = Inr True"
proof (induction hfs)
  case Nil
  then show ?case by simp
next
  case (Cons f hfs)
  then show ?case
    by (auto simp: key_bits_set_def list_getitem_in_range)
qed

lemma check_bloom_filter_total:
  "family_in_range hfs (length bf) key \<Longrightarrow> \<exists>b. check_bloom_filter bf hfs key = Inr b"
proof (induction hfs)
  case Nil
  then show ?case by auto
next
  case (Cons f hfs)
  from Cons.prems obtain i where i: "f key = Inr i" "0 \<le> i" "i < int (length bf)"
    and rest: "family_in_range hfs (length bf) key"
    unfolding family_in_range_Cons by blast
  with Cons.IH show ?case
    by (cases "bf ! nat i = 1") (auto simp: list_getitem_in_range)
qed

lemma add_all_sets:
  assumes "\<forall>k \<in> set ks. family_in_range hfs (length bf) k"
  shows "\<exists>bf'. add_all bf hfs ks = Inr bf' \<and> bits_kept bf bf' \<and> (\<forall>k \<in> set ks. key_bits_set bf' hfs k)"
  using assms
proof (induction ks arbitrary: bf)
  case Nil
  then show ?case by (simp add: bits_kept_refl)
next
  case (Cons k ks)
  from Cons.prems have here: "family_in_range hfs (length bf) k"
    and later: "\<forall>k' \<in> set ks. family_in_range hfs (length bf) k'"
    by simp_all
  from add_to_bloom_filter_sets [OF here] obtain bf1 where
    bf1: "add_to_bloom_filter bf hfs k = Inr bf1" "bits_kept bf bf1" "key_bits_set bf1 hfs k"
    by blast
  have "\<forall>k' \<in> set ks. family_in_range hfs (length bf1) k'"
    using later bf1(2) by (simp add: bits_kept_def)
  from Cons.IH [OF this] obtain bf' where
    bf': "add_all bf1 hfs ks = Inr bf'" "bits_kept bf1 bf'" "\<forall>k \<in> set ks. key_bits_set bf' hfs k"
    by blast
  have "add_all bf hfs (k # ks) = Inr bf'" using bf1(1) bf'(1) by simp
  moreover have "bits_kept bf bf'" using bf1(2) bf'(2) by (rule bits_kept_trans)
  moreover have "key_bits_set bf' hfs k" using bf1(3) bf'(2) by (rule key_bits_set_kept)
  ultimately show ?case using bf'(3) by auto
qed

lemma created_family_Cons:
  assumes "1 \<le> h"
  shows "\<exists>rest. create_hash_functions sha h N = hash_closure sha N 0 # rest"
proof -
  from assms obtain m where "nat h = Suc m" by (cases "nat h") simp_all
  then have "create_hash_functions sha h N
               = hash_closure sha N 0 # map (hash_closure sha N) [Suc 0..<Suc m]"
    by (simp add: create_hash_functions_def upt_conv_Cons del: upt_Suc)
  then show ?thesis by blast
qed

lemma not_encodable_raises:
  assumes "1 \<le> h" and "\<not> encodable key"
  shows "add_to_bloom_filter bf (create_hash_functions sha h N) key = Inl UnicodeEncodeError"
    and "check_bloom_filter bf (create_hash_functions sha h N) key = Inl UnicodeEncodeError"
proof -
  from created_family_Cons [OF assms(1)] obtain rest where
    "create_hash_functions sha h N = hash_closure sha N 0 # rest" by blast
  then show "add_to_bloom_filter bf (create_hash_functions sha h N) key = Inl UnicodeEncodeError"
    and "check_bloom_filter bf (create_hash_functions sha h N) key = Inl UnicodeEncodeError"
    using assms(2) by (simp_all add: hash_closure_not_encodable)
qed

text \<open>
  C10. With an empty hash family, which is what \<open>create_hash_functions(0, N)\<close> returns,
  \<open>check_bloom_filter\<close> answers True for every bit array and every key, and
  \<open>add_to_bloom_filter\<close> returns the bit array unchanged.
\<close>

theorem empty_family_vacuous_membership:
  "create_hash_functions sha 0 N = []
   \<and> check_bloom_filter bloom_filter (create_hash_functions sha 0 N) key = Inr True
   \<and> add_to_bloom_filter bloom_filter (create_hash_functions sha 0 N) key = Inr bloom_filter"
  by (simp add: create_hash_functions_def)

text \<open>
  C1. No false negatives. For a bit array of size \<open>N \<ge> 1\<close> and the family of \<open>h \<ge> 1\<close> hash
  functions created for that size, adding any list of keys to the bit array succeeds, and
  afterwards \<open>check_bloom_filter\<close> returns True for every key of the list, wherever the
  key stands in the list and whatever was added before or after it. The keys are those
  that can be added: a \<open>str\<close> that has no encoding makes \<open>add_to_bloom_filter\<close> raise in
  its first hash call, before any bit is set (\<open>not_encodable_raises\<close>).
\<close>

theorem bloom_no_false_negatives:
  assumes "1 \<le> N" and "1 \<le> h" and "length bloom_filter = nat N" and "key \<in> set keys"
    and "\<forall>k \<in> set keys. encodable k"
  shows "\<exists>bloom_filter'.
           add_all bloom_filter (create_hash_functions sha h N) keys = Inr bloom_filter'
           \<and> check_bloom_filter bloom_filter' (create_hash_functions sha h N) key = Inr True"
proof -
  have "\<forall>k \<in> set keys. family_in_range (create_hash_functions sha h N) (length bloom_filter) k"
    using assms(1,3,5) by (simp add: created_family_in_range)
  from add_all_sets [OF this] obtain bf' where
    "add_all bloom_filter (create_hash_functions sha h N) keys = Inr bf'"
    "\<forall>k \<in> set keys. key_bits_set bf' (create_hash_functions sha h N) k"
    by blast
  with assms(4) show ?thesis by (auto intro: check_bloom_filter_True)
qed

theorem bloom_no_false_negatives_witness:
  "(1::int) \<le> 8 \<and> (1::int) \<le> 2 \<and> length (replicate 8 (0::int)) = nat 8
   \<and> py_str ''a'' \<in> set [py_str ''a'', py_str ''b'']
   \<and> encodable (py_str ''a'') \<and> encodable (py_str ''b'')
   \<and> (\<exists>bloom_filter'.
         add_all (replicate 8 0) (create_hash_functions byte_sum_digest 2 8) [py_str ''a'', py_str ''b'']
           = Inr bloom_filter'
         \<and> check_bloom_filter bloom_filter' (create_hash_functions byte_sum_digest 2 8) (py_str ''a'')
             = Inr True)"
proof -
  have h: "(1::int) \<le> 8" "(1::int) \<le> 2" "length (replicate 8 (0::int)) = nat 8"
    "py_str ''a'' \<in> set [py_str ''a'', py_str ''b'']"
    by simp_all
  have e: "encodable (py_str ''a'')" "encodable (py_str ''b'')" by (rule encodable_py_str)+
  then have all: "\<forall>k \<in> set [py_str ''a'', py_str ''b'']. encodable k" by simp
  from bloom_no_false_negatives [OF h all, of byte_sum_digest] h e show ?thesis by blast
qed

text \<open>
  C7, as the code has it. For \<open>N \<ge> 1\<close> and \<open>h \<ge> 1\<close>, \<open>create_hash_functions\<close> returns
  \<open>h\<close> functions. On a key that has a UTF-8 encoding, the function number \<open>i\<close> returns the
  digest of the encoded f-string built from \<open>i\<close> and the key, modulo \<open>N\<close>: a value that
  depends on the index and the key only and lies in \<open>[0, N)\<close>; on a bit array of length
  \<open>N\<close>, \<open>add_to_bloom_filter\<close> and \<open>check_bloom_filter\<close> then return without an
  exception. On a key that holds a surrogate code point every function raises
  \<open>UnicodeEncodeError\<close>, and so do \<open>add_to_bloom_filter\<close> and \<open>check_bloom_filter\<close>.
\<close>

theorem hash_family_deterministic_in_range:
  assumes "1 \<le> N" and "1 \<le> h" and "i < nat h" and "length bloom_filter = nat N"
  shows "length (create_hash_functions sha h N) = nat h
       \<and> (encodable key \<longrightarrow>
            (\<exists>bytes. encode (hash_input i key) = Inr bytes
               \<and> (create_hash_functions sha h N ! i) key = Inr (int (sha bytes) mod N)
               \<and> 0 \<le> int (sha bytes) mod N \<and> int (sha bytes) mod N < N)
          \<and> (\<exists>bloom_filter'.
                add_to_bloom_filter bloom_filter (create_hash_functions sha h N) key = Inr bloom_filter'
              \<and> length bloom_filter' = length bloom_filter)
          \<and> (\<exists>b. check_bloom_filter bloom_filter (create_hash_functions sha h N) key = Inr b))
       \<and> (\<not> encodable key \<longrightarrow>
            (create_hash_functions sha h N ! i) key = Inl UnicodeEncodeError
          \<and> add_to_bloom_filter bloom_filter (create_hash_functions sha h N) key = Inl UnicodeEncodeError
          \<and> check_bloom_filter bloom_filter (create_hash_functions sha h N) key = Inl UnicodeEncodeError)"
proof -
  have nth: "(create_hash_functions sha h N ! i) key = hash_closure sha N i key"
    using assms(3) by (simp add: create_hash_functions_def)
  have good: "(\<exists>bytes. encode (hash_input i key) = Inr bytes
               \<and> (create_hash_functions sha h N ! i) key = Inr (int (sha bytes) mod N)
               \<and> 0 \<le> int (sha bytes) mod N \<and> int (sha bytes) mod N < N)
          \<and> (\<exists>bloom_filter'.
                add_to_bloom_filter bloom_filter (create_hash_functions sha h N) key = Inr bloom_filter'
              \<and> length bloom_filter' = length bloom_filter)
          \<and> (\<exists>b. check_bloom_filter bloom_filter (create_hash_functions sha h N) key = Inr b)"
    if enc: "encodable key"
  proof -
    have fam: "family_in_range (create_hash_functions sha h N) (length bloom_filter) key"
      using assms(1,4) enc by (simp add: created_family_in_range)
    from add_to_bloom_filter_sets [OF fam]
    have "\<exists>bloom_filter'.
            add_to_bloom_filter bloom_filter (create_hash_functions sha h N) key = Inr bloom_filter'
          \<and> length bloom_filter' = length bloom_filter"
      by (auto simp: bits_kept_def)
    with hash_closure_in_range [OF assms(1) enc, of i sha] check_bloom_filter_total [OF fam]
    show ?thesis unfolding nth by blast
  qed
  have bad: "(create_hash_functions sha h N ! i) key = Inl UnicodeEncodeError
          \<and> add_to_bloom_filter bloom_filter (create_hash_functions sha h N) key = Inl UnicodeEncodeError
          \<and> check_bloom_filter bloom_filter (create_hash_functions sha h N) key = Inl UnicodeEncodeError"
    if "\<not> encodable key"
    using that not_encodable_raises [OF assms(2) that, of bloom_filter sha N]
    by (simp add: nth hash_closure_not_encodable)
  from good bad show ?thesis by (simp add: create_hash_functions_length)
qed

theorem hash_family_deterministic_in_range_witness:
  "(1::int) \<le> 8 \<and> (1::int) \<le> 2 \<and> 1 < nat 2 \<and> length (replicate 8 (0::int)) = nat 8
   \<and> encodable (py_str ''a'') \<and> \<not> encodable [55296]
   \<and> length (create_hash_functions byte_sum_digest 2 8) = nat 2
   \<and> (\<exists>bytes. encode (hash_input 1 (py_str ''a'')) = Inr bytes
        \<and> (create_hash_functions byte_sum_digest 2 8 ! 1) (py_str ''a'')
             = Inr (int (byte_sum_digest bytes) mod 8))
   \<and> (\<exists>b. check_bloom_filter (replicate 8 0) (create_hash_functions byte_sum_digest 2 8) (py_str ''a'')
             = Inr b)
   \<and> (create_hash_functions byte_sum_digest 2 8 ! 1) [55296] = Inl UnicodeEncodeError
   \<and> add_to_bloom_filter (replicate 8 0) (create_hash_functions byte_sum_digest 2 8) [55296]
        = Inl UnicodeEncodeError"
proof -
  have h: "(1::int) \<le> 8" "(1::int) \<le> 2" "1 < nat 2" "length (replicate 8 (0::int)) = nat 8"
    by simp_all
  have e: "encodable (py_str ''a'')" by (rule encodable_py_str)
  have n: "\<not> encodable [55296]" by (simp add: encodable_def surrogate_def)
  from hash_family_deterministic_in_range [OF h, of byte_sum_digest "py_str ''a''"]
    hash_family_deterministic_in_range [OF h, of byte_sum_digest "[55296]"] h e n
  show ?thesis by blast
qed

text \<open>
  C7 as stated fails on a key that is a \<open>str\<close> but has no encoding: on the one-character
  \<open>str\<close> holding the lone surrogate \<open>0xD800\<close>, the first function of the family for
  \<open>N = 8\<close> raises \<open>UnicodeEncodeError\<close>, and so does \<open>check_bloom_filter\<close>.
\<close>

theorem lone_surrogate_key_raises:
  "(create_hash_functions byte_sum_digest 2 8 ! 0) [55296] = Inl UnicodeEncodeError
   \<and> check_bloom_filter (replicate 8 0) (create_hash_functions byte_sum_digest 2 8) [55296]
        = Inl UnicodeEncodeError"
proof -
  have n: "\<not> encodable [55296]" by (simp add: encodable_def surrogate_def)
  have "(create_hash_functions byte_sum_digest 2 8 ! 0) [55296]
          = hash_closure byte_sum_digest 8 0 [55296]"
    by (simp add: create_hash_functions_def)
  then have "(create_hash_functions byte_sum_digest 2 8 ! 0) [55296] = Inl UnicodeEncodeError"
    by (simp add: hash_closure_not_encodable [OF n])
  moreover have "check_bloom_filter (replicate 8 0) (create_hash_functions byte_sum_digest 2 8) [55296]
        = Inl UnicodeEncodeError"
    by (rule not_encodable_raises(2) [OF _ n]) simp
  ultimately show ?thesis by blast
qed


section \<open>Reservoir sampling: properties\<close>

lemma sampling_loop_length:
  "length sample = min index (nat k) \<Longrightarrow>
   \<exists>sample'. sampling_loop k randint index sample xs = Inr sample'
     \<and> length sample' = min (index + length xs) (nat k)"
proof (induction xs arbitrary: index sample)
  case Nil
  then show ?case by simp
next
  case (Cons x xs)
  show ?case
  proof (cases "int index < k")
    case True
    then have "length (sample @ [x]) = min (Suc index) (nat k)"
      using Cons.prems by simp
    from Cons.IH [OF this] True show ?thesis by simp
  next
    case False
    then have full: "length sample = nat k" "min (Suc index) (nat k) = nat k"
      using Cons.prems by simp_all
    show ?thesis
    proof (cases "int (randint index) < k")
      case True
      then have inr: "int (randint index) < int (length sample)"
        using full by simp
      have "length (sample[randint index := x]) = min (Suc index) (nat k)"
        using full by simp
      from Cons.IH [OF this] False True inr show ?thesis
        by (simp add: list_setitem_in_range)
    next
      case True': False
      have "length sample = min (Suc index) (nat k)" using full by simp
      from Cons.IH [OF this] False True' show ?thesis by simp
    qed
  qed
qed

lemma sampling_loop_append:
  "sampling_loop k randint index sample (xs @ ys) =
     (case sampling_loop k randint index sample xs of
        Inl e \<Rightarrow> Inl e
      | Inr sample' \<Rightarrow> sampling_loop k randint (index + length xs) sample' ys)"
  by (induction xs arbitrary: index sample) (auto split: sum.splits)

lemma sampling_loop_cong:
  "(\<And>j. index \<le> j \<Longrightarrow> j < index + length xs \<Longrightarrow> r j = r' j) \<Longrightarrow>
   sampling_loop k r index sample xs = sampling_loop k r' index sample xs"
proof (induction xs arbitrary: index sample)
  case Nil
  then show ?case by simp
next
  case (Cons x xs)
  have here: "r index = r' index" using Cons.prems [of index] by simp
  have later: "\<And>s. sampling_loop k r (Suc index) s xs = sampling_loop k r' (Suc index) s xs"
    using Cons.prems by (intro Cons.IH) simp_all
  show ?case by (simp add: here later split: sum.splits)
qed

lemma sampling_loop_fill:
  "index + length xs \<le> nat k \<Longrightarrow> sampling_loop k randint index sample xs = Inr (sample @ xs)"
  by (induction xs arbitrary: index sample) auto

text \<open>
  C3. Size of the sample. For every sample size \<open>k\<close>, every finite stream and every
  outcome of the random draws, \<open>reservoir_sampling\<close> returns a list, without an exception,
  whose length is the minimum of the length of the stream and \<open>k\<close>; \<open>nat k\<close> is \<open>k\<close> for
  \<open>k \<ge> 1\<close> and 0 for \<open>k = 0\<close> (and below), where the list is empty.
\<close>

theorem reservoir_sampling_size:
  "\<exists>sample. reservoir_sampling k randint datastream = Inr sample
     \<and> length sample = min (length datastream) (nat k)"
  using sampling_loop_length [of "[]" 0 k randint datastream]
  by (simp add: reservoir_sampling_def)

lemma reservoir_sampling_snoc:
  assumes "K \<le> length ys"
  shows "reservoir_sampling (int K) r (ys @ [y]) =
     (case reservoir_sampling (int K) r ys of
        Inl e \<Rightarrow> Inl e
      | Inr s \<Rightarrow> if r (length ys) < K then list_setitem s (int (r (length ys))) y else Inr s)"
  using assms
  by (simp add: reservoir_sampling_def sampling_loop_append split: sum.splits)

lemma reservoir_sampling_fill:
  "length xs \<le> K \<Longrightarrow> reservoir_sampling (int K) r xs = Inr xs"
  using sampling_loop_fill [of 0 xs "int K" r "[]"]
  by (simp add: reservoir_sampling_def)

lemma reservoir_sampling_cong:
  "(\<And>j. j < length xs \<Longrightarrow> r j = r' j) \<Longrightarrow>
   reservoir_sampling k r xs = reservoir_sampling k r' xs"
  unfolding reservoir_sampling_def by (rule sampling_loop_cong) simp

lemma sample_invariant:
  assumes "K \<le> length xs" and "distinct xs"
  shows "\<exists>s. reservoir_sampling (int K) r xs = Inr s \<and> length s = K \<and> distinct s \<and> set s \<subseteq> set xs"
  using assms
proof (induction xs rule: rev_induct)
  case Nil
  then show ?case by (simp add: reservoir_sampling_def)
next
  case (snoc y ys)
  show ?case
  proof (cases "K \<le> length ys")
    case False
    then have "length (ys @ [y]) \<le> K" "length (ys @ [y]) = K" using snoc.prems by simp_all
    then show ?thesis using snoc.prems(2) reservoir_sampling_fill [of "ys @ [y]" K r] by simp
  next
    case True
    from snoc.prems have dys: "distinct ys" and ynew: "y \<notin> set ys" by simp_all
    from snoc.IH [OF True dys] obtain s where
      s: "reservoir_sampling (int K) r ys = Inr s" "length s = K" "distinct s" "set s \<subseteq> set ys"
      by blast
    show ?thesis
    proof (cases "r (length ys) < K")
      case False
      then show ?thesis using s True by (auto simp: reservoir_sampling_snoc)
    next
      case lt: True
      let ?s' = "s[r (length ys) := y]"
      have run: "reservoir_sampling (int K) r (ys @ [y]) = Inr ?s'"
        using s lt True by (simp add: reservoir_sampling_snoc list_setitem_in_range)
      have "y \<notin> set s" using s(4) ynew by blast
      then have "distinct ?s'" using s(3) by (simp add: distinct_list_update)
      moreover have "set ?s' \<subseteq> set (ys @ [y])"
        using set_update_subset_insert [of s "r (length ys)" y] s(4) by auto
      ultimately show ?thesis using run s(2) by simp
    qed
  qed
qed

lemma draws_oracle_snoc_old:
  "j < K + length ds \<Longrightarrow> draws_oracle K (ds @ [r]) j = draws_oracle K ds j"
  by (auto simp: draws_oracle_def nth_append)

lemma draws_oracle_snoc_new:
  "draws_oracle K (ds @ [r]) (K + length ds) = r"
  by (simp add: draws_oracle_def)

lemma draw_sequences_length:
  "ds \<in> set (draw_sequences K m) \<Longrightarrow> length ds = m"
  by (induction m arbitrary: ds) auto

lemma length_filter_concat:
  "length (filter P (concat xss)) = sum_list (map (\<lambda>xs. length (filter P xs)) xss)"
  by (induction xss) simp_all

lemma sum_list_if_const:
  "sum_list (map (\<lambda>d. if P d then c else (0::nat)) ds) = c * length (filter P ds)"
  by (induction ds) simp_all

lemma count_below:
  "length (filter (\<lambda>r. r < K) [0..<n]) = min K n"
  by (induction n) auto

lemma count_other:
  "p < n \<Longrightarrow> length (filter (\<lambda>r. r \<noteq> p) [0..<n]) = n - 1"
proof (induction n)
  case 0
  then show ?case by simp
next
  case (Suc n)
  show ?case
  proof (cases "p < n")
    case True
    with Suc.IH show ?thesis by simp
  next
    case False
    then have "p = n" using Suc.prems by simp
    moreover have "filter (\<lambda>r. r \<noteq> n) [0..<n] = [0..<n]" by (simp add: filter_id_conv)
    ultimately show ?thesis by simp
  qed
qed

lemma last_draw_result:
  assumes len: "length ys = K + length ds"
    and s: "reservoir_sampling (int K) (draws_oracle K ds) ys = Inr s" "length s = K"
  shows "reservoir_sampling (int K) (draws_oracle K (ds @ [r])) (ys @ [y]) =
           Inr (if r < K then s[r := y] else s)"
proof -
  have "reservoir_sampling (int K) (draws_oracle K (ds @ [r])) ys
          = reservoir_sampling (int K) (draws_oracle K ds) ys"
    by (rule reservoir_sampling_cong) (simp add: len draws_oracle_snoc_old)
  moreover have "draws_oracle K (ds @ [r]) (length ys) = r"
    by (simp add: len draws_oracle_snoc_new)
  moreover have "K \<le> length ys" using len by simp
  ultimately show ?thesis
    using s by (simp add: reservoir_sampling_snoc list_setitem_in_range)
qed

lemma set_update_distinct:
  assumes "distinct s" and "r < length s" and "x \<noteq> y"
  shows "x \<in> set (s[r := y]) \<longleftrightarrow> x \<in> set s \<and> s ! r \<noteq> x"
proof
  assume "x \<in> set (s[r := y])"
  then obtain j where j: "j < length s" "s[r := y] ! j = x"
    by (auto simp: in_set_conv_nth)
  with assms(3) have "j \<noteq> r" using assms(2) by auto
  with j have "s ! j = x" by simp
  with j(1) \<open>j \<noteq> r\<close> assms(1,2) show "x \<in> set s \<and> s ! r \<noteq> x"
    by (auto simp: nth_eq_iff_index_eq)
next
  assume a: "x \<in> set s \<and> s ! r \<noteq> x"
  then obtain j where j: "j < length s" "s ! j = x"
    by (auto simp: in_set_conv_nth)
  with a have "j \<noteq> r" by auto
  with j have "s[r := y] ! j = x" by simp
  with j(1) show "x \<in> set (s[r := y])"
    by (metis length_list_update nth_mem)
qed

lemma last_draw_count:
  assumes len: "length ys = K + length ds"
    and dist: "distinct (ys @ [y])"
  shows "length (filter (\<lambda>r. present x (reservoir_sampling (int K) (draws_oracle K (ds @ [r])) (ys @ [y])))
                   [0..<Suc (length ys)])
         = (if x = y then K
            else if present x (reservoir_sampling (int K) (draws_oracle K ds) ys) then length ys
            else 0)"
proof -
  have Kle: "K \<le> length ys" using len by simp
  from dist have dys: "distinct ys" and ynew: "y \<notin> set ys" by simp_all
  from sample_invariant [OF Kle dys] obtain s where
    s: "reservoir_sampling (int K) (draws_oracle K ds) ys = Inr s" "length s = K"
       "distinct s" "set s \<subseteq> set ys"
    by blast
  have ys: "y \<notin> set s" using s(4) ynew by blast
  have res: "\<And>r. present x (reservoir_sampling (int K) (draws_oracle K (ds @ [r])) (ys @ [y]))
              = (if r < K then x \<in> set (s[r := y]) else x \<in> set s)"
    by (simp add: last_draw_result [OF len s(1,2)] present_def)
  show ?thesis
  proof (cases "x = y")
    case True
    have "\<And>r. (if r < K then x \<in> set (s[r := y]) else x \<in> set s) = (r < K)"
      using True ys s(2) by (auto intro: set_update_memI)
    then have "length (filter (\<lambda>r. present x (reservoir_sampling (int K) (draws_oracle K (ds @ [r])) (ys @ [y])))
                   [0..<Suc (length ys)]) = min K (Suc (length ys))"
      by (simp only: res count_below)
    also have "\<dots> = K" using Kle by simp
    finally show ?thesis unfolding if_P [OF True] .
  next
    case False
    show ?thesis
    proof (cases "x \<in> set s")
      case notin: False
      have rhs: "present x (reservoir_sampling (int K) (draws_oracle K ds) ys) = False"
        using notin by (simp add: s(1) present_def)
      have "\<And>r. (if r < K then x \<in> set (s[r := y]) else x \<in> set s) = False"
        using notin False set_update_subset_insert [of s _ y] by auto
      then have cnt: "length (filter (\<lambda>r. present x (reservoir_sampling (int K) (draws_oracle K (ds @ [r])) (ys @ [y])))
                   [0..<Suc (length ys)]) = 0"
        by (simp only: res) simp
      show ?thesis unfolding if_not_P [OF False] rhs if_False by (fact cnt)
    next
      case True
      have rhs: "present x (reservoir_sampling (int K) (draws_oracle K ds) ys) = True"
        using True by (simp add: s(1) present_def)
      from True obtain p where p: "p < K" "s ! p = x"
        using s(2) by (auto simp: in_set_conv_nth)
      have pS: "p < Suc (length ys)" using p Kle by simp
      have "\<And>r. (if r < K then x \<in> set (s[r := y]) else x \<in> set s) = (r \<noteq> p)"
        using True False p s(2,3) by (auto simp: set_update_distinct nth_eq_iff_index_eq)
      then have cnt: "length (filter (\<lambda>r. present x (reservoir_sampling (int K) (draws_oracle K (ds @ [r])) (ys @ [y])))
                   [0..<Suc (length ys)]) = Suc (length ys) - 1"
        by (simp only: res count_other [OF pS])
      show ?thesis unfolding if_not_P [OF False] rhs if_True using cnt by (simp only: diff_Suc_1)
    qed
  qed
qed

lemma draw_sequences_count:
  "length (draw_sequences K (Suc m)) = Suc (K + m) * length (draw_sequences K m)"
  by (simp add: length_concat comp_def sum_list_triv del: upt_Suc)

lemma presence_count_snoc:
  assumes len: "length ys = K + m" and dist: "distinct (ys @ [y])"
  shows "length (filter (\<lambda>ds. present x (reservoir_sampling (int K) (draws_oracle K ds) (ys @ [y])))
                   (draw_sequences K (Suc m)))
         = (if x = y then K * length (draw_sequences K m)
            else length ys *
                 length (filter (\<lambda>ds. present x (reservoir_sampling (int K) (draws_oracle K ds) ys))
                           (draw_sequences K m)))"
proof -
  let ?Q = "\<lambda>ds. present x (reservoir_sampling (int K) (draws_oracle K ds) (ys @ [y]))"
  let ?P = "\<lambda>ds. present x (reservoir_sampling (int K) (draws_oracle K ds) ys)"
  let ?D = "draw_sequences K m"
  have "length (filter ?Q (draw_sequences K (Suc m)))
        = sum_list (map (\<lambda>ds. length (filter (\<lambda>r. ?Q (ds @ [r])) [0..<Suc (length ys)])) ?D)"
    by (simp add: length_filter_concat filter_map comp_def len del: upt_Suc)
  also have "\<dots> = sum_list (map (\<lambda>ds. if x = y then K else if ?P ds then length ys else 0) ?D)"
  proof (rule arg_cong [where f = sum_list], rule map_cong [OF refl])
    fix ds assume "ds \<in> set ?D"
    then have "length ys = K + length ds" using len by (simp add: draw_sequences_length)
    from last_draw_count [OF this dist]
    show "length (filter (\<lambda>r. ?Q (ds @ [r])) [0..<Suc (length ys)])
          = (if x = y then K else if ?P ds then length ys else 0)" .
  qed
  also have "\<dots> = (if x = y then K * length ?D else length ys * length (filter ?P ?D))"
    by (simp add: sum_list_if_const sum_list_triv)
  finally show ?thesis .
qed

lemma draw_sequences_nonempty: "0 < length (draw_sequences K m)"
  by (induction m) (simp_all add: draw_sequences_count del: draw_sequences.simps(2))

lemma presence_count:
  assumes "K \<le> length xs" and "distinct xs" and "x \<in> set xs"
  shows "length (filter (\<lambda>ds. present x (reservoir_sampling (int K) (draws_oracle K ds) xs))
                   (draw_sequences K (length xs - K))) * length xs
         = K * length (draw_sequences K (length xs - K))"
  using assms
proof (induction xs rule: rev_induct)
  case Nil
  then show ?case by simp
next
  case (snoc y ys)
  show ?case
  proof (cases "K \<le> length ys")
    case False
    then have eq: "length (ys @ [y]) = K" using snoc.prems(1) by simp
    then have "\<And>r. reservoir_sampling (int K) r (ys @ [y]) = Inr (ys @ [y])"
      by (intro reservoir_sampling_fill) simp
    then show ?thesis using snoc.prems(3) eq by (simp add: present_def)
  next
    case True
    define m where "m = length ys - K"
    have len: "length ys = K + m" using True by (simp add: m_def)
    have m': "length (ys @ [y]) - K = Suc m" using len by simp
    from snoc.prems(2) have dys: "distinct ys" by simp
    show ?thesis
    proof (cases "x = y")
      case True
      then show ?thesis
        unfolding m' presence_count_snoc [OF len snoc.prems(2)] draw_sequences_count
        using len by (simp add: algebra_simps)
    next
      case False
      then have "x \<in> set ys" using snoc.prems(3) by simp
      from snoc.IH [OF \<open>K \<le> length ys\<close> dys this]
      have IH: "length (filter (\<lambda>ds. present x (reservoir_sampling (int K) (draws_oracle K ds) ys))
                   (draw_sequences K m)) * length ys = K * length (draw_sequences K m)"
        by (simp add: m_def)
      show ?thesis
        unfolding m' presence_count_snoc [OF len snoc.prems(2)] draw_sequences_count
        using False IH len by (simp add: algebra_simps)
    qed
  qed
qed


text \<open>
  The sequences \<open>draw_sequences k m\<close> are exactly the lists of \<open>m\<close> draws whose entry
  number \<open>j\<close>, the draw at index \<open>k + j\<close>, lies in \<open>[0, k + j]\<close>, each listed once: counting
  in this list is counting in the space of equally likely outcomes.
\<close>

lemma draw_sequences_member:
  "ds \<in> set (draw_sequences k m) \<longleftrightarrow> length ds = m \<and> (\<forall>j < m. ds ! j \<le> k + j)"
proof (induction m arbitrary: ds)
  case 0
  then show ?case by auto
next
  case (Suc m)
  show ?case
  proof
    assume "ds \<in> set (draw_sequences k (Suc m))"
    then obtain pre r where pre: "pre \<in> set (draw_sequences k m)" and r: "r \<le> k + m"
      and ds: "ds = pre @ [r]"
      by (auto simp del: upt_Suc)
    from pre have p: "length pre = m" "\<forall>j < m. pre ! j \<le> k + j" using Suc.IH by blast+
    show "length ds = Suc m \<and> (\<forall>j < Suc m. ds ! j \<le> k + j)"
      using p r by (auto simp: ds nth_append less_Suc_eq)
  next
    assume a: "length ds = Suc m \<and> (\<forall>j < Suc m. ds ! j \<le> k + j)"
    then have ne: "ds \<noteq> []" by auto
    then have ds: "ds = butlast ds @ [last ds]" by simp
    have bl: "length (butlast ds) = m" using a by simp
    have "\<forall>j < m. butlast ds ! j \<le> k + j"
      using a bl by (simp add: nth_butlast)
    with bl have pre: "butlast ds \<in> set (draw_sequences k m)" using Suc.IH by blast
    have "last ds = ds ! m" using a ne by (simp add: last_conv_nth)
    then have r: "last ds \<le> k + m" using a by simp
    have "butlast ds @ [last ds] \<in> set (draw_sequences k (Suc m))"
      using pre r by (auto simp del: upt_Suc intro!: bexI [of _ "butlast ds"])
    with ds show "ds \<in> set (draw_sequences k (Suc m))" by simp
  qed
qed

lemma draw_sequences_distinct: "distinct (draw_sequences k m)"
proof (induction m)
  case 0
  then show ?case by simp
next
  case (Suc m)
  have inj: "inj_on (\<lambda>ds. map (\<lambda>r. ds @ [r]) [0..<Suc (k + m)]) (set (draw_sequences k m))"
    by (rule inj_onI) (simp add: map_eq_conv del: upt_Suc, force)
  show ?case
    unfolding draw_sequences.simps
  proof (rule distinct_concat)
    show "distinct (map (\<lambda>ds. map (\<lambda>r. ds @ [r]) [0..<Suc (k + m)]) (draw_sequences k m))"
      using Suc.IH inj by (simp add: distinct_map del: upt_Suc)
  next
    fix ys assume "ys \<in> set (map (\<lambda>ds. map (\<lambda>r. ds @ [r]) [0..<Suc (k + m)]) (draw_sequences k m))"
    then show "distinct ys" by (auto simp: distinct_map inj_on_def simp del: upt_Suc)
  next
    fix ys zs
    assume "ys \<in> set (map (\<lambda>ds. map (\<lambda>r. ds @ [r]) [0..<Suc (k + m)]) (draw_sequences k m))"
      "zs \<in> set (map (\<lambda>ds. map (\<lambda>r. ds @ [r]) [0..<Suc (k + m)]) (draw_sequences k m))"
      "ys \<noteq> zs"
    then show "set ys \<inter> set zs = {}" by (auto simp del: upt_Suc)
  qed
qed

text \<open>
  For a stream of distinct values, the share of the draw sequences under which a given
  value of the stream is in the returned sample is \<open>k / n\<close>.
\<close>

lemma presence_ratio_distinct:
  assumes "1 \<le> k" and "k \<le> length xs" and "distinct xs" and "x \<in> set xs"
  shows "real (length (filter (\<lambda>draws. present x (reservoir_sampling (int k) (draws_oracle k draws) xs))
                         (draw_sequences k (length xs - k))))
           / real (length (draw_sequences k (length xs - k)))
         = real k / real (length xs)"
proof -
  let ?c = "length (filter (\<lambda>draws. present x (reservoir_sampling (int k) (draws_oracle k draws) xs))
                         (draw_sequences k (length xs - k)))"
  let ?t = "length (draw_sequences k (length xs - k))"
  have "?c * length xs = k * ?t" using assms(2-4) by (rule presence_count)
  then have "real ?c * real (length xs) = real k * real ?t"
    by (metis of_nat_mult)
  moreover have "0 < real ?t" using draw_sequences_nonempty [of k "length xs - k"] by simp
  moreover have "0 < length xs" using assms(1,2) by linarith
  then have "0 < real (length xs)" by simp
  ultimately show ?thesis by (simp add: field_simps)
qed


text \<open>
  The loop never looks at the transactions: mapping a function over the stream maps it
  over the sample, for every outcome of the draws. In particular the sample of a stream
  is the sample of its positions \<open>0, ..., n - 1\<close> with every position replaced by the
  element standing there.
\<close>

lemma list_setitem_map:
  "list_setitem (map f s) i (f x) = map_sum id (map f) (list_setitem s i x)"
  by (simp add: list_setitem_def map_update)

lemma sampling_loop_map:
  "sampling_loop k randint index (map f sample) (map f xs)
     = map_sum id (map f) (sampling_loop k randint index sample xs)"
proof (induction xs arbitrary: index sample)
  case Nil
  then show ?case by simp
next
  case (Cons x xs)
  show ?case
  proof (cases "int index < k")
    case True
    then show ?thesis using Cons.IH [of "Suc index" "sample @ [x]"] by simp
  next
    case False
    show ?thesis
    proof (cases "int (randint index) < k")
      case nodraw: False
      with False show ?thesis using Cons.IH [of "Suc index" sample] by simp
    next
      case True
      show ?thesis
      proof (cases "list_setitem sample (int (randint index)) x")
        case (Inl e)
        then have "list_setitem (map f sample) (int (randint index)) (f x) = Inl e"
          by (simp add: list_setitem_map)
        with False True Inl show ?thesis by simp
      next
        case (Inr sample')
        then have "list_setitem (map f sample) (int (randint index)) (f x) = Inr (map f sample')"
          by (simp add: list_setitem_map)
        with False True Inr show ?thesis using Cons.IH [of "Suc index" sample'] by simp
      qed
    qed
  qed
qed

lemma reservoir_sampling_map:
  "reservoir_sampling k randint (map f xs) = map_sum id (map f) (reservoir_sampling k randint xs)"
  using sampling_loop_map [of k randint 0 f "[]" xs] by (simp add: reservoir_sampling_def)

lemma reservoir_sampling_positions:
  "reservoir_sampling k randint xs
     = map_sum id (map (\<lambda>position. xs ! position)) (reservoir_sampling k randint [0..<length xs])"
  using reservoir_sampling_map [of k randint "\<lambda>position. xs ! position" "[0..<length xs]"]
  by (simp add: map_nth)

text \<open>
  C2. Uniformity. For \<open>k \<ge> 1\<close> and every stream of \<open>n \<ge> k\<close> elements, equal values
  allowed: for every outcome of the draws the returned sample is the sample of the
  positions \<open>0, ..., n - 1\<close> with each position replaced by its element, and the share of
  the draw sequences under which a given position of the stream is in the sample is
  exactly \<open>k / n\<close>.
\<close>

theorem reservoir_sampling_uniform:
  assumes "1 \<le> k" and "k \<le> length xs" and "p < length xs"
  shows "reservoir_sampling (int k) randint xs
           = map_sum id (map (\<lambda>position. xs ! position))
               (reservoir_sampling (int k) randint [0..<length xs])
       \<and> real (length (filter (\<lambda>draws. present p
                                  (reservoir_sampling (int k) (draws_oracle k draws) [0..<length xs]))
                         (draw_sequences k (length xs - k))))
           / real (length (draw_sequences k (length xs - k)))
         = real k / real (length xs)"
proof -
  have "k \<le> length [0..<length xs]" "distinct [0..<length xs]" "p \<in> set [0..<length xs]"
    using assms(2,3) by simp_all
  from presence_ratio_distinct [OF assms(1) this]
  have "real (length (filter (\<lambda>draws. present p
                                  (reservoir_sampling (int k) (draws_oracle k draws) [0..<length xs]))
                         (draw_sequences k (length xs - k))))
           / real (length (draw_sequences k (length xs - k)))
         = real k / real (length xs)"
    by simp
  with reservoir_sampling_positions [of "int k" randint xs] show ?thesis by blast
qed

theorem reservoir_sampling_uniform_witness:
  "(1::nat) \<le> 1 \<and> 1 \<le> length [10, 10, 30::int] \<and> 1 < length [10, 10, 30::int]
   \<and> reservoir_sampling (int 1) (draws_oracle 1 [0, 1]) [10, 10, 30::int]
       = map_sum id (map (\<lambda>position. [10, 10, 30::int] ! position))
           (reservoir_sampling (int 1) (draws_oracle 1 [0, 1]) [0..<length [10, 10, 30::int]])
   \<and> real (length (filter (\<lambda>draws. present 1
                              (reservoir_sampling (int 1) (draws_oracle 1 draws)
                                 [0..<length [10, 10, 30::int]]))
                     (draw_sequences 1 (length [10, 10, 30::int] - 1))))
        / real (length (draw_sequences 1 (length [10, 10, 30::int] - 1)))
      = real 1 / real (length [10, 10, 30::int])"
proof -
  have h: "(1::nat) \<le> 1" "1 \<le> length [10, 10, 30::int]" "1 < length [10, 10, 30::int]"
    by simp_all
  from reservoir_sampling_uniform [OF h, of "draws_oracle 1 [0, 1]"] h show ?thesis by blast
qed


section \<open>Cardinality estimator: properties\<close>

lemma rev_bin_digits_small: "n < 2 \<Longrightarrow> rev (bin_digits n) = [digit_char n]"
  by (subst bin_digits.simps) simp

lemma rev_bin_digits_big:
  "\<not> n < 2 \<Longrightarrow> rev (bin_digits n) = digit_char (n mod 2) # rev (bin_digits (n div 2))"
  by (subst bin_digits.simps) simp

lemma lowest_one_index:
  "0 < n \<Longrightarrow>
   \<exists>t. str_index (rev (bin_digits n)) (CHR ''1'') = Inr t \<and> 2 ^ t dvd n \<and> \<not> 2 ^ Suc t dvd n"
proof (induction n rule: bin_digits.induct)
  case (1 n)
  show ?case
  proof (cases "n < 2")
    case True
    with "1.prems" have "n = 1" by simp
    then show ?thesis by (simp add: rev_bin_digits_small digit_char_1)
  next
    case False
    show ?thesis
    proof (cases "even n")
      case odd: False
      then have "n mod 2 = Suc 0" by (simp add: odd_iff_mod_2_eq_one)
      then show ?thesis using False odd by (simp add: rev_bin_digits_big digit_char_1)
    next
      case True
      then have m: "n mod 2 = 0" by simp
      have "0 < n div 2" using False by simp
      from "1.IH" [OF False this] obtain t where
        t: "str_index (rev (bin_digits (n div 2))) (CHR ''1'') = Inr t"
           "2 ^ t dvd n div 2" "\<not> 2 ^ Suc t dvd n div 2"
        by blast
      from True obtain q where q: "n = 2 * q" by (auto elim: evenE)
      have "2 ^ Suc t dvd n" using t(2) q by simp
      moreover have "\<not> 2 ^ Suc (Suc t) dvd n" using t(3) q by simp
      moreover have "str_index (rev (bin_digits n)) (CHR ''1'') = Inr (Suc t)"
        using False m t(1) by (simp add: rev_bin_digits_big digit_char_0)
      ultimately show ?thesis by blast
    qed
  qed
qed

lemma count_trailing_zeros_nat:
  "count_trailing_zeros (int n) =
     (case str_index (rev (bin_digits n)) (CHR ''1'') of Inr t \<Rightarrow> t | Inl e \<Rightarrow> 0)"
  by (simp add: count_trailing_zeros_def bin_def)

lemma count_trailing_zeros_0: "count_trailing_zeros 0 = 0"
  using count_trailing_zeros_nat [of 0] by (simp add: rev_bin_digits_small digit_char_0)

lemma count_trailing_zeros_pos:
  assumes "0 < n"
  shows "2 ^ count_trailing_zeros (int n) dvd n" and "\<not> 2 ^ Suc (count_trailing_zeros (int n)) dvd n"
  using lowest_one_index [OF assms] by (auto simp: count_trailing_zeros_nat)

lemma lowest_bit_of_dvd:
  fixes x :: int
  assumes "2 ^ t dvd x" and "\<not> 2 ^ Suc t dvd x"
  shows "bit x t" and "\<forall>i < t. \<not> bit x i"
proof -
  from assms(1) obtain q where q: "x = 2 ^ t * q" by (rule dvdE)
  have "odd q"
  proof (rule ccontr)
    assume "\<not> odd q"
    then obtain r where r: "q = 2 * r" by (auto elim: evenE)
    have "x = 2 ^ Suc t * r" unfolding q r by simp
    then have "2 ^ Suc t dvd x" by (rule dvdI)
    with assms(2) show False by contradiction
  qed
  have x: "x = push_bit t q" unfolding q by (simp add: push_bit_eq_mult)
  show "bit x t" using \<open>odd q\<close> unfolding x by (simp add: bit_push_bit_iff bit_0)
  show "\<forall>i < t. \<not> bit x i" unfolding x by (simp add: bit_push_bit_iff)
qed

lemma two_power_dvd_int: "((2::int) ^ c dvd int n) = ((2::nat) ^ c dvd n)"
  using int_dvd_int_iff [of "2 ^ c" n] by simp


text \<open>
  C8. For a non-negative integer \<open>x\<close>, \<open>count_trailing_zeros x\<close> is 0 when \<open>x = 0\<close>, and
  otherwise the number of trailing zero bits of \<open>x\<close>: the largest power of two dividing
  \<open>x\<close>, which is the position of the lowest set bit.
\<close>

theorem count_trailing_zeros_lowest_set_bit:
  assumes "0 \<le> x"
  shows "(x = 0 \<longrightarrow> count_trailing_zeros x = 0)
       \<and> (x \<noteq> 0 \<longrightarrow>
            2 ^ count_trailing_zeros x dvd x \<and> \<not> 2 ^ Suc (count_trailing_zeros x) dvd x
          \<and> bit x (count_trailing_zeros x) \<and> (\<forall>i < count_trailing_zeros x. \<not> bit x i))"
proof (cases "x = 0")
  case True
  then show ?thesis by (simp add: count_trailing_zeros_0)
next
  case False
  define n where "n = nat x"
  have n: "x = int n" "0 < n" using assms False by (simp_all add: n_def)
  have d: "2 ^ count_trailing_zeros x dvd x" "\<not> 2 ^ Suc (count_trailing_zeros x) dvd x"
    using count_trailing_zeros_pos [OF n(2)] unfolding n(1) two_power_dvd_int by blast+
  from lowest_bit_of_dvd [OF d] d False show ?thesis by blast
qed

theorem count_trailing_zeros_witness:
  "(0::int) \<le> 12 \<and> 2 ^ count_trailing_zeros 12 dvd (12::int)
   \<and> \<not> 2 ^ Suc (count_trailing_zeros 12) dvd (12::int)
   \<and> bit (12::int) (count_trailing_zeros 12)"
proof -
  have h: "(0::int) \<le> 12" by simp
  from count_trailing_zeros_lowest_set_bit [OF h] h show ?thesis by simp
qed

lemma add_loop_length: "length (add_loop sha item idxs counters) = length counters"
  by (induction idxs arbitrary: counters) (simp_all add: Let_def)

lemma add_loop_nth:
  assumes "distinct idxs" and "i < length counters"
  shows "add_loop sha item idxs counters ! i =
           (if i \<in> set idxs then max (counters ! i) (item_zeros sha i item) else counters ! i)"
  using assms
proof (induction idxs arbitrary: counters)
  case Nil
  then show ?case by simp
next
  case (Cons j idxs)
  let ?c = "if item_zeros sha j item > counters ! j then counters[j := item_zeros sha j item] else counters"
  have step: "add_loop sha item (j # idxs) counters = add_loop sha item idxs ?c"
    by (simp add: item_zeros_def Let_def)
  have len: "i < length ?c" using Cons.prems(2) by simp
  have d: "distinct idxs" and jn: "j \<notin> set idxs" using Cons.prems(1) by simp_all
  have IH: "add_loop sha item idxs ?c ! i =
           (if i \<in> set idxs then max (?c ! i) (item_zeros sha i item) else ?c ! i)"
    using Cons.IH [OF d len] .
  show ?case
  proof (cases "i = j")
    case True
    then have "i \<notin> set idxs" using jn by simp
    then show ?thesis unfolding step IH using True Cons.prems(2) by (simp add: max_def)
  next
    case False
    then have "?c ! i = counters ! i" by simp
    then show ?thesis unfolding step IH using False by simp
  qed
qed

lemma fm_add_length:
  "length (max_trailing_zeros (fm_add sha self item)) = length (max_trailing_zeros self)"
  by (simp add: fm_add_def add_loop_length)

lemma fm_add_nth:
  "i < length (max_trailing_zeros self) \<Longrightarrow>
   max_trailing_zeros (fm_add sha self item) ! i
     = max (max_trailing_zeros self ! i) (item_zeros sha i item)"
  by (simp add: fm_add_def add_loop_nth)

lemma fm_add_all_length:
  "length (max_trailing_zeros (fm_add_all sha self items)) = length (max_trailing_zeros self)"
  by (induction items arbitrary: self) (simp_all add: fm_add_length)

lemma Max_insert_max:
  fixes a b :: nat
  assumes "finite S"
  shows "Max (insert (max a b) S) = Max (insert a (insert b S))"
proof (cases "S = {}")
  case True
  then show ?thesis by simp
next
  case False
  with assms show ?thesis by (simp add: max.assoc)
qed

lemma fm_add_all_nth:
  "i < length (max_trailing_zeros self) \<Longrightarrow>
   max_trailing_zeros (fm_add_all sha self items) ! i
     = Max (insert (max_trailing_zeros self ! i) (item_zeros sha i ` set items))"
proof (induction items arbitrary: self)
  case Nil
  then show ?case by simp
next
  case (Cons item items)
  have "i < length (max_trailing_zeros (fm_add sha self item))"
    using Cons.prems by (simp add: fm_add_length)
  from Cons.IH [OF this]
  have "max_trailing_zeros (fm_add_all sha self (item # items)) ! i
        = Max (insert (max (max_trailing_zeros self ! i) (item_zeros sha i item))
                 (item_zeros sha i ` set items))"
    using Cons.prems by (simp add: fm_add_nth)
  also have "\<dots> = Max (insert (max_trailing_zeros self ! i)
                        (insert (item_zeros sha i item) (item_zeros sha i ` set items)))"
    by (rule Max_insert_max) simp
  finally show ?case by simp
qed

lemma fm_add_all_snoc:
  "fm_add_all sha self (items @ [item]) = fm_add sha (fm_add_all sha self items) item"
  by (induction items arbitrary: self) simp_all

lemma fm_add_seen:
  assumes "item \<in> set items"
  shows "fm_add sha (fm_add_all sha self items) item = fm_add_all sha self items"
proof -
  let ?s = "fm_add_all sha self items"
  have "max_trailing_zeros (fm_add sha ?s item) = max_trailing_zeros ?s"
  proof (rule nth_equalityI)
    show "length (max_trailing_zeros (fm_add sha ?s item)) = length (max_trailing_zeros ?s)"
      by (rule fm_add_length)
  next
    fix i assume "i < length (max_trailing_zeros (fm_add sha ?s item))"
    then have i: "i < length (max_trailing_zeros ?s)" "i < length (max_trailing_zeros self)"
      by (simp_all add: fm_add_length fm_add_all_length)
    have "item_zeros sha i item \<le> max_trailing_zeros ?s ! i"
      unfolding fm_add_all_nth [OF i(2)] using assms by (intro Max_ge) simp_all
    then show "max_trailing_zeros (fm_add sha ?s item) ! i = max_trailing_zeros ?s ! i"
      by (simp add: fm_add_nth [OF i(1)] max_def)
  qed
  then show ?thesis by (simp add: fm_add_def)
qed


text \<open>
  C4. After adding any list of items to an estimator constructed with \<open>h \<ge> 1\<close> counters,
  there are still \<open>h\<close> counters, and counter \<open>i\<close> is the maximum, over the items added, of
  the trailing-zero count of \<open>hash_function(item, i)\<close>, and 0 when nothing was added. One
  more \<open>add\<close> never lowers a counter, and adding an item that was added before changes
  nothing.
\<close>

theorem counters_are_running_maxima:
  assumes "1 \<le> h" and "i < nat h"
  shows "length (max_trailing_zeros (fm_add_all sha (FlajoletMartin_init h) items)) = nat h
       \<and> max_trailing_zeros (fm_add_all sha (FlajoletMartin_init h) items) ! i
           = Max (insert 0 ((\<lambda>item. count_trailing_zeros (int (hash_function sha item i))) ` set items))
       \<and> max_trailing_zeros (fm_add_all sha (FlajoletMartin_init h) items) ! i
           \<le> max_trailing_zeros (fm_add sha (fm_add_all sha (FlajoletMartin_init h) items) item) ! i
       \<and> (item \<in> set items \<longrightarrow>
            fm_add sha (fm_add_all sha (FlajoletMartin_init h) items) item
              = fm_add_all sha (FlajoletMartin_init h) items)"
proof -
  let ?s = "fm_add_all sha (FlajoletMartin_init h) items"
  have i0: "i < length (max_trailing_zeros (FlajoletMartin_init h))"
    using assms(2) by (simp add: FlajoletMartin_init_def)
  have len: "length (max_trailing_zeros ?s) = nat h"
    by (simp add: fm_add_all_length FlajoletMartin_init_def)
  have "max_trailing_zeros (FlajoletMartin_init h) ! i = 0"
    using assms(2) by (simp add: FlajoletMartin_init_def)
  then have val: "max_trailing_zeros ?s ! i
           = Max (insert 0 ((\<lambda>item. count_trailing_zeros (int (hash_function sha item i))) ` set items))"
    using fm_add_all_nth [OF i0, of sha items] by (simp add: item_zeros_def [abs_def])
  have mono: "max_trailing_zeros ?s ! i \<le> max_trailing_zeros (fm_add sha ?s item) ! i"
    using assms(2) len by (simp add: fm_add_nth)
  from len val mono fm_add_seen [of item items sha "FlajoletMartin_init h"] show ?thesis
    by blast
qed

theorem counters_are_running_maxima_witness:
  "(1::int) \<le> 2 \<and> 1 < nat 2 \<and> ''a'' \<in> set [''a'', ''b'']
   \<and> length (max_trailing_zeros (fm_add_all byte_sum_digest (FlajoletMartin_init 2) [''a'', ''b''])) = nat 2
   \<and> max_trailing_zeros (fm_add_all byte_sum_digest (FlajoletMartin_init 2) [''a'', ''b'']) ! 1
       = Max (insert 0 ((\<lambda>item. count_trailing_zeros (int (hash_function byte_sum_digest item 1)))
                           ` set [''a'', ''b'']))
   \<and> fm_add byte_sum_digest (fm_add_all byte_sum_digest (FlajoletMartin_init 2) [''a'', ''b'']) ''a''
       = fm_add_all byte_sum_digest (FlajoletMartin_init 2) [''a'', ''b'']"
proof -
  have h: "(1::int) \<le> 2" "1 < nat 2" by simp_all
  have m: "''a'' \<in> set [''a'', ''b'']" by simp
  from counters_are_running_maxima [OF h, of byte_sum_digest "[''a'', ''b'']" "''a''"] h m
  show ?thesis by blast
qed

lemma median_nonempty:
  assumes "counters \<noteq> []"
  shows "median counters =
     Inr (if odd (length counters) then PyInt (int (sort counters ! (length counters div 2)))
          else PyFloat ((real (sort counters ! (length counters div 2 - 1))
                         + real (sort counters ! (length counters div 2))) / 2))"
proof -
  have "sort counters \<noteq> []" using assms by (metis length_sort length_0_conv)
  then show ?thesis by (simp add: median_def Let_def odd_iff_mod_2_eq_one)
qed

lemma num_value_pow2: "num_value (pow2 m) = 2 powr num_value m"
  by (cases m) (simp_all add: pow2_def num_value_def powr_realpow [symmetric])

lemma estimate_number_formula:
  assumes "max_trailing_zeros self \<noteq> []"
  shows "\<exists>m. median (max_trailing_zeros self) = Inr m
           \<and> estimate_number self = Inr (PyFloat (2 powr num_value m / 0.75351), m)"
  using median_nonempty [OF assms]
  by (simp add: estimate_number_def truediv_def num_value_pow2)

text \<open>
  C5. The estimate is 2 to the power of the median of the counters over a constant, for
  every estimator with at least one counter (\<open>estimate_number_formula\<close>). The constant
  of the source is 0.75351: an estimator with one counter and no item added returns
  \<open>1 / 0.75351\<close> with median 0, which is not \<open>1 / 0.77351\<close>.
\<close>

theorem estimate_number_constant:
  "estimate_number (FlajoletMartin_init 1) = Inr (PyFloat (1 / 0.75351), PyInt 0)
   \<and> (1 / 0.75351 :: real) \<noteq> 1 / 0.77351"
  by (simp add: estimate_number_def FlajoletMartin_init_def median_def truediv_def pow2_def num_value_def)

text \<open>
  C9, as the code has it. For an estimator constructed with \<open>hash_count \<ge> 1\<close> and any
  list of added items, \<open>estimate_number\<close> returns a pair whose first component is a float
  and whose second component is what \<open>statistics.median\<close> returns: the middle counter of
  the sorted counters, an int, when the number of counters is odd, and half the sum of
  the two middle counters, a float, when it is even.
\<close>

theorem estimate_number_median_type:
  assumes "1 \<le> h"
  shows "\<exists>estimate. estimate_number (fm_add_all sha (FlajoletMartin_init h) items) =
           Inr (PyFloat estimate,
                if odd (nat h)
                then PyInt (int (sort (counters_after sha h items) ! (nat h div 2)))
                else PyFloat ((real (sort (counters_after sha h items) ! (nat h div 2 - 1))
                               + real (sort (counters_after sha h items) ! (nat h div 2))) / 2))"
proof -
  let ?s = "fm_add_all sha (FlajoletMartin_init h) items"
  let ?m = "if odd (nat h)
                then PyInt (int (sort (counters_after sha h items) ! (nat h div 2)))
                else PyFloat ((real (sort (counters_after sha h items) ! (nat h div 2 - 1))
                               + real (sort (counters_after sha h items) ! (nat h div 2))) / 2)"
  have len: "length (max_trailing_zeros ?s) = nat h"
    by (simp add: fm_add_all_length FlajoletMartin_init_def)
  then have ne: "max_trailing_zeros ?s \<noteq> []" using assms by auto
  have m: "median (max_trailing_zeros ?s) = Inr ?m"
    using median_nonempty [OF ne] unfolding len counters_after_def .
  have "estimate_number ?s = Inr (PyFloat (num_value (pow2 ?m) / 0.75351), ?m)"
    by (simp only: estimate_number_def m sum.case truediv_def)
  then show ?thesis by blast
qed

theorem estimate_number_median_type_witness:
  "(1::int) \<le> 2 \<and>
   (\<exists>estimate. estimate_number (fm_add_all byte_sum_digest (FlajoletMartin_init 2) [''a'', ''b'']) =
      Inr (PyFloat estimate,
           if odd (nat 2)
           then PyInt (int (sort (counters_after byte_sum_digest 2 [''a'', ''b'']) ! (nat 2 div 2)))
           else PyFloat ((real (sort (counters_after byte_sum_digest 2 [''a'', ''b'']) ! (nat 2 div 2 - 1))
                          + real (sort (counters_after byte_sum_digest 2 [''a'', ''b'']) ! (nat 2 div 2))) / 2)))"
proof -
  have h: "(1::int) \<le> 2" by simp
  from estimate_number_median_type [OF h, of byte_sum_digest "[''a'', ''b'']"] h
  show ?thesis by blast
qed

text \<open>
  C9 as stated fails for an even number of counters: with two counters and no item added
  the second component is the float \<open>0.0\<close>, not an int.
\<close>

theorem estimate_number_float_median:
  "estimate_number (FlajoletMartin_init 2) = Inr (PyFloat (1 / 0.75351), PyFloat 0)
   \<and> PyFloat 0 \<noteq> PyInt 0"
  by (simp add: estimate_number_def FlajoletMartin_init_def median_def truediv_def pow2_def
      num_value_def numeral_2_eq_2)


section \<open>Parameters that are not positive\<close>

lemma sampling_loop_nonpositive:
  "k \<le> 0 \<Longrightarrow> sampling_loop k randint index sample xs = Inr sample"
  by (induction xs arbitrary: index) simp_all

lemma zero_size_raises:
  assumes "1 \<le> h"
  shows "add_to_bloom_filter bf (create_hash_functions sha h 0) key
           = Inl (if encodable key then ZeroDivisionError else UnicodeEncodeError)"
    and "check_bloom_filter bf (create_hash_functions sha h 0) key
           = Inl (if encodable key then ZeroDivisionError else UnicodeEncodeError)"
proof -
  from created_family_Cons [OF assms] obtain rest where
    "create_hash_functions sha h 0 = hash_closure sha 0 0 # rest" by blast
  then show "add_to_bloom_filter bf (create_hash_functions sha h 0) key
           = Inl (if encodable key then ZeroDivisionError else UnicodeEncodeError)"
    and "check_bloom_filter bf (create_hash_functions sha h 0) key
           = Inl (if encodable key then ZeroDivisionError else UnicodeEncodeError)"
    by (simp_all add: hash_closure_zero)
qed

lemma negative_size_raises:
  assumes "1 \<le> h" and "N < 0"
  shows "add_to_bloom_filter (replicate (nat N) 0) (create_hash_functions sha h N) key
           = Inl (if encodable key then IndexError else UnicodeEncodeError)"
proof (cases "encodable key")
  case True
  from created_family_Cons [OF assms(1)] obtain rest where
    fam: "create_hash_functions sha h N = hash_closure sha N 0 # rest" by blast
  from True have "encodable (hash_input 0 key)" by (simp add: encodable_hash_input)
  then obtain bytes where "encode (hash_input 0 key) = Inr bytes"
    using encode_encodable by blast
  then have "hash_closure sha N 0 key = Inr (int (sha bytes) mod N)"
    using assms(2) by (simp add: hash_closure_def py_mod_def)
  moreover have "replicate (nat N) (0::int) = []" using assms(2) by simp
  ultimately show ?thesis using True by (simp add: fam list_setitem_empty)
next
  case False
  with not_encodable_raises(1) [OF assms(1) False] show ?thesis by simp
qed

text \<open>
  C6, as the code has it. No parameter is checked when a structure is built, and no
  construction raises. \<open>reservoir_sampling\<close> with \<open>k \<le> 0\<close> returns the empty list for
  every stream. \<open>create_hash_functions\<close> returns the empty family for a count \<open>h \<le> 0\<close>,
  and for size 0 it returns its \<open>h\<close> functions, each of which raises
  \<open>ZeroDivisionError\<close> when it is called on a key that has an encoding, so that with
  \<open>h \<ge> 1\<close> the first \<open>add_to_bloom_filter\<close> or \<open>check_bloom_filter\<close> raises it; for a
  negative size the bit array \<open>[0] * N\<close> is empty and the first \<open>add_to_bloom_filter\<close>
  raises \<open>IndexError\<close>. (On a key without an encoding each of these calls raises
  \<open>UnicodeEncodeError\<close> instead.) \<open>FlajoletMartin\<close> with \<open>num_hashes \<le> 0\<close> has no
  counters: \<open>add\<close> changes nothing and \<open>estimate_number\<close> raises \<open>StatisticsError\<close>.
\<close>

theorem parameters_are_not_validated:
  "(k \<le> 0 \<longrightarrow> reservoir_sampling k randint datastream = Inr [])
   \<and> (h0 \<le> 0 \<longrightarrow> create_hash_functions sha h0 N0 = [])
   \<and> length (create_hash_functions sha h 0) = nat h
   \<and> (i < nat h \<longrightarrow>
        (create_hash_functions sha h 0 ! i) key
          = Inl (if encodable key then ZeroDivisionError else UnicodeEncodeError))
   \<and> (1 \<le> h \<longrightarrow>
        add_to_bloom_filter bloom_filter (create_hash_functions sha h 0) key
          = Inl (if encodable key then ZeroDivisionError else UnicodeEncodeError)
      \<and> check_bloom_filter bloom_filter (create_hash_functions sha h 0) key
          = Inl (if encodable key then ZeroDivisionError else UnicodeEncodeError))
   \<and> (1 \<le> h \<and> N < 0 \<longrightarrow>
        add_to_bloom_filter (replicate (nat N) 0) (create_hash_functions sha h N) key
          = Inl (if encodable key then IndexError else UnicodeEncodeError))
   \<and> (n \<le> 0 \<longrightarrow>
        max_trailing_zeros (FlajoletMartin_init n) = []
      \<and> fm_add sha (FlajoletMartin_init n) item = FlajoletMartin_init n
      \<and> estimate_number (FlajoletMartin_init n) = Inl StatisticsError)"
proof -
  have a: "k \<le> 0 \<longrightarrow> reservoir_sampling k randint datastream = Inr []"
    by (simp add: reservoir_sampling_def sampling_loop_nonpositive)
  have b: "h0 \<le> 0 \<longrightarrow> create_hash_functions sha h0 N0 = []"
    by (simp add: create_hash_functions_def)
  have c: "length (create_hash_functions sha h 0) = nat h"
    by (rule create_hash_functions_length)
  have c': "i < nat h \<longrightarrow>
        (create_hash_functions sha h 0 ! i) key
          = Inl (if encodable key then ZeroDivisionError else UnicodeEncodeError)"
    by (simp add: create_hash_functions_def hash_closure_zero)
  have d: "1 \<le> h \<longrightarrow>
        add_to_bloom_filter bloom_filter (create_hash_functions sha h 0) key
          = Inl (if encodable key then ZeroDivisionError else UnicodeEncodeError)
      \<and> check_bloom_filter bloom_filter (create_hash_functions sha h 0) key
          = Inl (if encodable key then ZeroDivisionError else UnicodeEncodeError)"
    using zero_size_raises [of h bloom_filter sha key] by blast
  have e: "1 \<le> h \<and> N < 0 \<longrightarrow>
        add_to_bloom_filter (replicate (nat N) 0) (create_hash_functions sha h N) key
          = Inl (if encodable key then IndexError else UnicodeEncodeError)"
    using negative_size_raises [of h N sha key] by blast
  have f: "n \<le> 0 \<longrightarrow>
        max_trailing_zeros (FlajoletMartin_init n) = []
      \<and> fm_add sha (FlajoletMartin_init n) item = FlajoletMartin_init n
      \<and> estimate_number (FlajoletMartin_init n) = Inl StatisticsError"
    by (simp add: FlajoletMartin_init_def fm_add_def estimate_number_def median_def)
  from a b c c' d e f show ?thesis by blast
qed

theorem parameters_are_not_validated_witness:
  "(0::int) \<le> 0 \<and> (1::int) \<le> 2 \<and> (-3::int) < 0 \<and> 1 < nat 2
   \<and> reservoir_sampling 0 id [10, 20, 30::int] = Inr []
   \<and> create_hash_functions byte_sum_digest 0 8 = []
   \<and> length (create_hash_functions byte_sum_digest 2 0) = nat 2
   \<and> (create_hash_functions byte_sum_digest 2 0 ! 1) (py_str ''a'') = Inl ZeroDivisionError
   \<and> add_to_bloom_filter [] (create_hash_functions byte_sum_digest 2 0) (py_str ''a'')
        = Inl ZeroDivisionError
   \<and> check_bloom_filter [] (create_hash_functions byte_sum_digest 2 0) (py_str ''a'')
        = Inl ZeroDivisionError
   \<and> add_to_bloom_filter (replicate (nat (-3)) 0) (create_hash_functions byte_sum_digest 2 (-3))
          (py_str ''a'')
        = Inl IndexError
   \<and> max_trailing_zeros (FlajoletMartin_init 0) = []
   \<and> fm_add byte_sum_digest (FlajoletMartin_init 0) ''a'' = FlajoletMartin_init 0
   \<and> estimate_number (FlajoletMartin_init 0) = Inl StatisticsError"
proof -
  have z: "(0::int) \<le> 0" and p: "(1::int) \<le> 2" and m: "(-3::int) < 0" and i: "1 < nat 2"
    by simp_all
  have e: "encodable (py_str ''a'')" by (rule encodable_py_str)
  from parameters_are_not_validated
    [of 0 id "[10, 20, 30::int]" 0 byte_sum_digest 8 2 1 "py_str ''a''" "[]" "-3" 0 "''a''"]
    z p m i
  have "reservoir_sampling 0 id [10, 20, 30::int] = Inr []
   \<and> create_hash_functions byte_sum_digest 0 8 = []
   \<and> length (create_hash_functions byte_sum_digest 2 0) = nat 2
   \<and> (create_hash_functions byte_sum_digest 2 0 ! 1) (py_str ''a'')
        = Inl (if encodable (py_str ''a'') then ZeroDivisionError else UnicodeEncodeError)
   \<and> add_to_bloom_filter [] (create_hash_functions byte_sum_digest 2 0) (py_str ''a'')
        = Inl (if encodable (py_str ''a'') then ZeroDivisionError else UnicodeEncodeError)
   \<and> check_bloom_filter [] (create_hash_functions byte_sum_digest 2 0) (py_str ''a'')
        = Inl (if encodable (py_str ''a'') then ZeroDivisionError else UnicodeEncodeError)
   \<and> add_to_bloom_filter (replicate (nat (-3)) 0) (create_hash_functions byte_sum_digest 2 (-3))
          (py_str ''a'')
        = Inl (if encodable (py_str ''a'') then IndexError else UnicodeEncodeError)
   \<and> max_trailing_zeros (FlajoletMartin_init 0) = []
   \<and> fm_add byte_sum_digest (FlajoletMartin_init 0) ''a'' = FlajoletMartin_init 0
   \<and> estimate_number (FlajoletMartin_init 0) = Inl StatisticsError"
    by blast
  then show ?thesis unfolding if_P [OF e] using z p m i by blast
qed

text \<open>
  C6 as stated fails: with sample size 0 \<open>reservoir_sampling\<close> returns normally; with bit
  array size 0 the hash family is built and the error surfaces at the first add; with
  zero hash functions the estimator is built and the error surfaces in
  \<open>estimate_number\<close>.
\<close>

theorem construction_with_zero_succeeds:
  "reservoir_sampling 0 id [10, 20, 30::int] = Inr []
   \<and> length (create_hash_functions byte_sum_digest 2 0) = 2
   \<and> add_to_bloom_filter [] (create_hash_functions byte_sum_digest 2 0) (py_str ''a'')
        = Inl ZeroDivisionError
   \<and> max_trailing_zeros (FlajoletMartin_init 0) = []
   \<and> estimate_number (FlajoletMartin_init 0) = Inl StatisticsError"
  by (simp add: reservoir_sampling_def create_hash_functions_def hash_closure_zero
      encodable_py_str FlajoletMartin_init_def estimate_number_def median_def numeral_2_eq_2)

end
